theory Spec2Isabelle
  imports Complex_Main "HOL-Library.Word" "HOL-Library.Log_Nat" "HOL-Library.Multiset"
begin

unbundle bit_operations_syntax

section \<open>The MIDI recorder's file writer (master.py)\<close>

text \<open>
  The development embeds the two functions of \<^verbatim>\<open>master.py\<close> that build the MIDI file:
  \<^verbatim>\<open>encode_var_len\<close> and \<^verbatim>\<open>write_midi_file\<close>. Python integers are \<open>int\<close>, the
  elements of a \<^verbatim>\<open>bytes\<close> or \<^verbatim>\<open>bytearray\<close> object are \<open>8 word\<close>, every exception the
  two functions can raise on their way is a value of \<open>error\<close>, and the in-place sort of
  the caller's list is returned as the list after the call.
\<close>

subsection \<open>Python values\<close>

type_synonym byte = "8 word"

datatype error =
    StructError     \<comment> \<open>\<^verbatim>\<open>struct.error\<close>: a value outside the range of its format\<close>
  | ValueError      \<comment> \<open>\<^verbatim>\<open>bytes\<close> of a value outside \<^verbatim>\<open>range(256)\<close>, \<^verbatim>\<open>round\<close> of a NaN\<close>
  | OverflowError   \<comment> \<open>\<^verbatim>\<open>round\<close> of an infinity, an \<^verbatim>\<open>int\<close> too large for a float\<close>

text \<open>
  A recorded event is the tuple \<^verbatim>\<open>(timestamp, [status, data1, data2])\<close>. The timestamp
  is a Python float. The model reads a finite float as the rational number it denotes
  (every finite binary64 value is a dyadic rational; the two zeros are one value), so a
  timestamp is a \<open>rat\<close>: the recorder builds timestamps as differences of
  \<^verbatim>\<open>time.time()\<close> readings, which are finite. Infinite and NaN timestamps are outside
  the model (on a NaN key the result of \<^verbatim>\<open>list.sort\<close> is not determined by the
  language). The data is the list of Python integers handed over by the device.
\<close>

type_synonym event = "rat \<times> int list"

subsection \<open>Float arithmetic\<close>

text \<open>
  The results of float operations: a finite binary64 value, an infinity or NaN.
\<close>

datatype pyfloat = Finite rat | PosInf | NegInf | NaN

text \<open>Rounding to the nearest integer, a tie to the even one: Python 3's \<^verbatim>\<open>round\<close>.\<close>

definition round_half_even :: "rat \<Rightarrow> int" where
  "round_half_even x =
     (let f = \<lfloor>x\<rfloor>; d = x - of_int f
      in if d < 1 / 2 then f else if 1 / 2 < d then f + 1 else if even f then f else f + 1)"

text \<open>The binary exponent of a non-zero rational: the \<open>k\<close> with \<open>2\<^sup>k \<le> \<bar>x\<bar> < 2\<^sup>k\<^sup>+\<^sup>1\<close>.\<close>

definition binade :: "rat \<Rightarrow> int" where
  "binade x =
     (let (p, q) = quotient_of \<bar>x\<bar>; k = bitlen p - bitlen q
      in if 2 powi k \<le> \<bar>x\<bar> then k else k - 1)"

text \<open>
  IEEE 754 binary64 rounding of an exact result (round to nearest, ties to even): 53
  significant bits, the least exponent of a unit in the last place \<open>-1074\<close> (subnormal
  numbers), and an infinity once the rounded magnitude reaches \<open>2\<^sup>1\<^sup>0\<^sup>2\<^sup>4\<close>.
\<close>

definition round_to_double :: "rat \<Rightarrow> pyfloat" where
  "round_to_double x =
     (if x = 0 then Finite 0
      else let e = max (binade x - 52) (- 1074);
               y = of_int (round_half_even (x / 2 powi e)) * 2 powi e
           in if 2 ^ 1024 \<le> \<bar>y\<bar> then (if 0 < y then PosInf else NegInf) else Finite y)"

text \<open>\<^verbatim>\<open>a - b\<close> on two finite floats.\<close>

definition float_sub :: "rat \<Rightarrow> rat \<Rightarrow> pyfloat" where
  "float_sub a b = round_to_double (a - b)"

text \<open>
  The conversion of an \<^verbatim>\<open>int\<close> operand of a float operation: correctly rounded, and
  an OverflowError when the integer is too large for a float.
\<close>

definition float_of_int :: "int \<Rightarrow> error + rat" where
  "float_of_int i =
     (case round_to_double (of_int i) of Finite y \<Rightarrow> Inr y | _ \<Rightarrow> Inl OverflowError)"

text \<open>\<^verbatim>\<open>a * b\<close> on floats, \<open>b\<close> finite.\<close>

fun float_mul :: "pyfloat \<Rightarrow> rat \<Rightarrow> pyfloat" where
  "float_mul (Finite a) b = round_to_double (a * b)"
| "float_mul PosInf b = (if 0 < b then PosInf else if b < 0 then NegInf else NaN)"
| "float_mul NegInf b = (if 0 < b then NegInf else if b < 0 then PosInf else NaN)"
| "float_mul NaN b = NaN"

text \<open>\<^verbatim>\<open>int(round(x))\<close> on a float.\<close>

fun py_round :: "pyfloat \<Rightarrow> error + int" where
  "py_round (Finite x) = Inr (round_half_even x)"
| "py_round PosInf = Inl OverflowError"
| "py_round NegInf = Inl OverflowError"
| "py_round NaN = Inl ValueError"

subsection \<open>Bytes and struct.pack\<close>

text \<open>A bytes literal such as \<^verbatim>\<open>b'MThd'\<close>: the codes of its characters.\<close>

definition bytes_literal :: "string \<Rightarrow> byte list" where
  "bytes_literal s = map of_char s"

text \<open>\<^verbatim>\<open>bytes(xs)\<close> on a list of integers: a ValueError unless each is in \<^verbatim>\<open>range(256)\<close>.\<close>

definition bytes :: "int list \<Rightarrow> error + byte list" where
  "bytes xs =
     (if list_all (\<lambda>b. 0 \<le> b \<and> b < 256) xs then Inr (map word_of_int xs)
      else Inl ValueError)"

text \<open>One big-endian unsigned field of \<^verbatim>\<open>struct.pack\<close>: \<^verbatim>\<open>">H"\<close> and \<^verbatim>\<open>">I"\<close>.\<close>

definition pack_H :: "int \<Rightarrow> error + byte list" where
  "pack_H v =
     (if 0 \<le> v \<and> v < 2 ^ 16 then Inr [word_of_int (drop_bit 8 v), word_of_int v]
      else Inl StructError)"

definition pack_I :: "int \<Rightarrow> error + byte list" where
  "pack_I v =
     (if 0 \<le> v \<and> v < 2 ^ 32
      then Inr [word_of_int (drop_bit 24 v), word_of_int (drop_bit 16 v),
                word_of_int (drop_bit 8 v), word_of_int v]
      else Inl StructError)"

text \<open>\<^verbatim>\<open>struct.pack(">HHH", a, b, c)\<close>.\<close>

definition pack_HHH :: "int \<Rightarrow> int \<Rightarrow> int \<Rightarrow> error + byte list" where
  "pack_HHH a b c =
     (case pack_H a of Inl e \<Rightarrow> Inl e | Inr x \<Rightarrow>
      (case pack_H b of Inl e \<Rightarrow> Inl e | Inr y \<Rightarrow>
       (case pack_H c of Inl e \<Rightarrow> Inl e | Inr z \<Rightarrow> Inr (x @ y @ z))))"

subsection \<open>encode_var_len\<close>

text \<open>
  The \<^verbatim>\<open>while n > 127\<close> loop of \<^verbatim>\<open>encode_var_len\<close>: \<^verbatim>\<open>n >>= 7\<close>, then
  \<^verbatim>\<open>bytes_list.insert(0, (n & 0x7F) | 0x80)\<close>. Python's \<^verbatim>\<open>>>\<close> and \<^verbatim>\<open>&\<close> on
  unbounded integers are \<open>drop_bit\<close> and \<open>AND\<close> on \<open>int\<close> (two's complement for
  negative numbers in both).
\<close>

function encode_loop :: "int \<Rightarrow> int list \<Rightarrow> int list" where
  "encode_loop n bytes_list =
     (if n > 127
      then (let n' = drop_bit 7 n in encode_loop n' (((n' AND 0x7F) OR 0x80) # bytes_list))
      else bytes_list)"
  by pat_completeness auto
termination
  by (relation "measure (\<lambda>(n, _). nat n)") (auto simp: drop_bit_eq_div)

declare encode_loop.simps [simp del]

definition encode_var_len :: "int \<Rightarrow> int list" where
  "encode_var_len n = encode_loop n [n AND 0x7F]"

subsection \<open>write_midi_file\<close>

definition ticks_per_second :: "int \<Rightarrow> int" where
  "ticks_per_second division = division * 2"

text \<open>
  The body of the event loop up to \<^verbatim>\<open>ticks = int(round(delta_time * ticks_per_second))\<close>.
\<close>

definition ticks_of :: "rat \<Rightarrow> rat \<Rightarrow> int \<Rightarrow> error + int" where
  "ticks_of timestamp last_time tps =
     (let delta_time = float_sub timestamp last_time
      in case float_of_int tps of Inl e \<Rightarrow> Inl e
         | Inr f \<Rightarrow> py_round (float_mul delta_time f))"

text \<open>
  The loop \<^verbatim>\<open>for timestamp, data in events\<close> on its state \<^verbatim>\<open>(track, last_time)\<close>;
  an exception ends it.
\<close>

fun event_loop :: "int \<Rightarrow> event list \<Rightarrow> byte list \<times> rat \<Rightarrow> error + byte list \<times> rat" where
  "event_loop tps [] (track, last_time) = Inr (track, last_time)"
| "event_loop tps ((timestamp, data) # events) (track, last_time) =
     (case ticks_of timestamp last_time tps of Inl e \<Rightarrow> Inl e
      | Inr ticks \<Rightarrow>
       (case bytes (encode_var_len ticks) of Inl e \<Rightarrow> Inl e
        | Inr var_len \<Rightarrow>
         (case bytes data of Inl e \<Rightarrow> Inl e
          | Inr d \<Rightarrow> event_loop tps events (track @ var_len @ d, timestamp))))"

definition header_chunk :: "int \<Rightarrow> error + byte list" where
  "header_chunk division =
     (case pack_I 6 of Inl e \<Rightarrow> Inl e | Inr len \<Rightarrow>
      (case pack_HHH 0 1 division of Inl e \<Rightarrow> Inl e
       | Inr fields \<Rightarrow> Inr (bytes_literal ''MThd'' @ len @ fields)))"

definition track_chunk :: "byte list \<Rightarrow> error + byte list" where
  "track_chunk track =
     (case pack_I (int (length track)) of Inl e \<Rightarrow> Inl e
      | Inr len \<Rightarrow> Inr (bytes_literal ''MTrk'' @ len @ track))"

text \<open>
  What the function acts on besides its arguments: the files by name, and the lines
  printed. Opening and writing the file are taken to succeed.
\<close>

record world =
  files :: "string \<rightharpoonup> byte list"
  stdout :: "string list"

text \<open>
  \<^verbatim>\<open>write_midi_file(filename, events, division)\<close>. \<^verbatim>\<open>events.sort(key=lambda x: x[0])\<close>
  sorts the caller's list object in place (a stable sort, as \<open>sort_key\<close> is), so the
  first component of the result is the caller's list after the call, whether the call
  returns or raises. The second is the exception raised, or the world after the file
  was written and the message printed; every exception is raised before the file is
  opened.
\<close>

definition write_midi_file ::
  "string \<Rightarrow> event list \<Rightarrow> int \<Rightarrow> world \<Rightarrow> event list \<times> (error + world)" where
  "write_midi_file filename events division w =
     (let events = sort_key fst events
      in (events,
          case header_chunk division of Inl e \<Rightarrow> Inl e
          | Inr header \<Rightarrow>
           (case event_loop (ticks_per_second division) events ([], 0) of Inl e \<Rightarrow> Inl e
            | Inr (track, last_time) \<Rightarrow>
             (case track_chunk (track @ [0x00, 0xFF, 0x2F, 0x00]) of Inl e \<Rightarrow> Inl e
              | Inr chunk \<Rightarrow>
                 Inr (w\<lparr>files := (files w)(filename \<mapsto> header @ chunk),
                        stdout := stdout w @ [''MIDI file written to '' @ filename]\<rparr>)))))"

subsection \<open>Notions of the specification\<close>

text \<open>
  The reader of a variable-length quantity, which the program does not have: each byte
  contributes its low 7 bits, most significant group first, and the first byte with the
  bit \<open>0x80\<close> clear ends the quantity. The result is the value and the bytes after it;
  \<open>None\<close> when the bytes end before the quantity does.
\<close>

fun decode_var_len_from :: "int \<Rightarrow> int list \<Rightarrow> (int \<times> int list) option" where
  "decode_var_len_from acc [] = None"
| "decode_var_len_from acc (b # bs) =
     (let acc' = acc * 128 + (b AND 0x7F)
      in if b AND 0x80 = 0 then Some (acc', bs) else decode_var_len_from acc' bs)"

definition decode_var_len :: "int list \<Rightarrow> (int \<times> int list) option" where
  "decode_var_len bs = decode_var_len_from 0 bs"

text \<open>The unsigned number a sequence of bytes denotes, most significant byte first.\<close>

definition be_uint :: "byte list \<Rightarrow> nat" where
  "be_uint bs = foldl (\<lambda>acc b. acc * 256 + unat b) 0 bs"

text \<open>
  The tick deltas of a timeline: what the event loop computes as \<^verbatim>\<open>ticks\<close> at each
  event, the previous time being \<open>last_time\<close> at the first one.
\<close>

fun delta_ticks :: "int \<Rightarrow> rat \<Rightarrow> event list \<Rightarrow> (error + int) list" where
  "delta_ticks tps last_time [] = []"
| "delta_ticks tps last_time ((timestamp, data) # events) =
     ticks_of timestamp last_time tps # delta_ticks tps timestamp events"

text \<open>The bytes of one event in the track: the delta as a quantity, then the data.\<close>

definition event_bytes :: "int \<Rightarrow> int list \<Rightarrow> byte list" where
  "event_bytes ticks data = map word_of_int (encode_var_len ticks) @ map word_of_int data"


section \<open>The variable-length quantity\<close>

lemma low7_mod: "(n::int) AND 0x7F = n mod 128"
  using take_bit_eq_mask [of 7 n, symmetric]
  by (simp add: take_bit_eq_mod mask_eq_exp_minus_1)

lemma continuation_set: "((x::int) OR 0x80) AND 0x80 \<noteq> 0"
  by (simp add: bit.conj_disj_distrib2 or_eq_0_iff)

lemma continuation_low: "(((x::int) AND 0x7F) OR 0x80) AND 0x7F = x AND 0x7F"
  by (simp add: bit.conj_disj_distrib2 and.assoc)

lemma low7_clear: "((n::int) AND 0x7F) AND 0x80 = 0"
  by (simp add: and.assoc)

lemma encode_loop_append: "encode_loop n bl @ rest = encode_loop n (bl @ rest)"
proof (induction n bl rule: encode_loop.induct)
  case (1 n bl)
  show ?case
  proof (cases "n > 127")
    case True
    then show ?thesis using 1 by (simp add: encode_loop.simps [of n] Let_def)
  next
    case False
    then show ?thesis by (simp add: encode_loop.simps [of n])
  qed
qed

lemma decode_encode_loop:
  "0 \<le> n \<Longrightarrow> decode_var_len_from 0 (encode_loop n bl) = decode_var_len_from (n div 128) bl"
proof (induction n bl rule: encode_loop.induct)
  case (1 n bl)
  show ?case
  proof (cases "n > 127")
    case True
    define n' where "n' = drop_bit 7 n"
    have n': "n' = n div 128" "0 \<le> n'"
      using True by (simp_all add: n'_def drop_bit_eq_div)
    have "decode_var_len_from 0 (encode_loop n bl)
        = decode_var_len_from 0 (encode_loop n' (((n' AND 0x7F) OR 0x80) # bl))"
      using True by (simp add: encode_loop.simps [of n] Let_def n'_def)
    also have "\<dots> = decode_var_len_from (n' div 128) (((n' AND 0x7F) OR 0x80) # bl)"
      using 1 True n' by (simp add: n'_def)
    also have "\<dots> = decode_var_len_from (n' div 128 * 128 + (n' AND 0x7F)) bl"
      using continuation_set [of "n' AND 0x7F"] continuation_low [of n']
      by (simp add: Let_def)
    also have "n' div 128 * 128 + (n' AND 0x7F) = n'"
      by (simp add: low7_mod)
    finally show ?thesis by (simp add: n')
  next
    case False
    with 1(2) show ?thesis by (simp add: encode_loop.simps [of n])
  qed
qed

lemma decode_encode_append:
  assumes "0 \<le> n"
  shows "decode_var_len (encode_var_len n @ rest) = Some (n, rest)"
proof -
  have "decode_var_len (encode_var_len n @ rest)
      = decode_var_len_from (n div 128) ((n AND 0x7F) # rest)"
    using assms
    by (simp add: decode_var_len_def encode_var_len_def encode_loop_append decode_encode_loop)
  also have "\<dots> = Some (n div 128 * 128 + (n AND 0x7F), rest)"
    using low7_clear [of n] by (simp add: and.assoc)
  also have "n div 128 * 128 + (n AND 0x7F) = n"
    by (simp add: low7_mod)
  finally show ?thesis .
qed

lemma encode_var_len_small: "n \<le> 127 \<Longrightarrow> encode_var_len n = [n AND 0x7F]"
  by (simp add: encode_var_len_def encode_loop.simps [of n])

lemma encode_loop_range:
  "list_all (\<lambda>b. 0 \<le> b \<and> b < 256) bl \<Longrightarrow> list_all (\<lambda>b. 0 \<le> b \<and> b < 256) (encode_loop n bl)"
proof (induction n bl rule: encode_loop.induct)
  case (1 n bl)
  show ?case
  proof (cases "n > 127")
    case True
    define g where "g = drop_bit 7 n AND 0x7F"
    have g: "0 \<le> g" "g < 2 ^ 8"
      using pos_mod_bound [of 128 "drop_bit 7 n"] by (simp_all add: g_def low7_mod)
    have "g OR 0x80 < 2 ^ 8"
      by (rule OR_upper) (use g in simp_all)
    moreover have "0 \<le> g OR 0x80"
      using g by simp
    ultimately show ?thesis
      using 1 True by (simp add: encode_loop.simps [of n] Let_def g_def)
  next
    case False
    with 1(2) show ?thesis by (simp add: encode_loop.simps [of n])
  qed
qed

lemma bytes_encode_var_len: "bytes (encode_var_len k) = Inr (map word_of_int (encode_var_len k))"
proof -
  have "0 \<le> k mod 128" "k mod 128 < 256"
    using pos_mod_bound [of 128 k] by simp_all
  then have "list_all (\<lambda>b. 0 \<le> b \<and> b < 256) (encode_var_len k)"
    unfolding encode_var_len_def by (intro encode_loop_range) (simp add: low7_mod)
  then show ?thesis by (simp add: bytes_def)
qed

text \<open>
  C2. For every non-negative \<open>n\<close>, reading the bytes of \<open>encode_var_len n\<close> as a
  variable-length quantity gives \<open>n\<close> back and consumes all of them.
\<close>

theorem encode_var_len_roundtrip:
  "0 \<le> n \<Longrightarrow> decode_var_len (encode_var_len n) = Some (n, [])"
  using decode_encode_append [of n "[]"] by simp

theorem encode_var_len_roundtrip_witness:
  "(0::int) \<le> 300000 \<and> encode_var_len 300000 = [0x92, 0xA7, 0x60]
   \<and> decode_var_len [0x92, 0xA7, 0x60] = Some (300000, [])"
proof -
  have e: "encode_var_len 300000 = [0x92, 0xA7, 0x60]"
    by code_simp
  show ?thesis
    using encode_var_len_roundtrip [of 300000] by (simp add: e)
qed

text \<open>
  C3. The five encodings of the specification: \<open>0\<close>, \<open>127\<close>, \<open>128\<close>, \<open>16383\<close> and
  \<open>16384\<close>.
\<close>

theorem encode_var_len_examples:
  "encode_var_len 0 = [0x00] \<and> encode_var_len 127 = [0x7F]
   \<and> encode_var_len 128 = [0x81, 0x00] \<and> encode_var_len 16383 = [0xFF, 0x7F]
   \<and> encode_var_len 16384 = [0x81, 0x80, 0x00]"
  by code_simp

text \<open>
  C8, as the specification states it, fails: \<open>encode_var_len\<close> has no check of its
  argument, and on \<open>-1\<close> it returns the one byte \<open>0x7F\<close>, which \<open>bytes\<close> accepts.
\<close>

theorem encode_var_len_negative_counterexample:
  "encode_var_len (- 1) = [0x7F] \<and> bytes (encode_var_len (- 1)) = Inr [0x7F]"
  by code_simp

text \<open>
  C8, amended. For every negative \<open>n\<close>, \<open>encode_var_len n\<close> raises nothing and returns
  the single byte \<open>n & 0x7F\<close>, which is \<open>n mod 128\<close>: the loop \<^verbatim>\<open>while n > 127\<close> is not
  entered.
\<close>

theorem encode_var_len_negative:
  "n < 0 \<Longrightarrow> encode_var_len n = [n AND 0x7F] \<and> n AND 0x7F = n mod 128
     \<and> bytes (encode_var_len n) = Inr [word_of_int (n mod 128)]"
proof -
  assume "n < 0"
  then have e: "encode_var_len n = [n AND 0x7F]"
    by (simp add: encode_var_len_small)
  have r: "0 \<le> n mod 128" "n mod 128 < 256"
    using pos_mod_bound [of 128 n] by simp_all
  show ?thesis
    using r by (simp add: e low7_mod bytes_def)
qed

theorem encode_var_len_negative_witness:
  "(- 192::int) < 0 \<and> encode_var_len (- 192) = [0x40]
   \<and> bytes (encode_var_len (- 192)) = Inr [0x40]"
  using encode_var_len_negative [of "- 192"] by (simp add: bytes_def)

section \<open>Chunks\<close>

lemma unat_byte_of_int: "unat (word_of_int x :: byte) = nat (x mod 256)"
  by (simp add: unat_eq_nat_uint uint_word_of_int take_bit_eq_mod)

lemma be_uint_4: "be_uint [a, b, c, d] = ((unat a * 256 + unat b) * 256 + unat c) * 256 + unat d"
  by (simp add: be_uint_def)

lemma split_u32:
  fixes v :: int
  assumes "0 \<le> v" "v < 2 ^ 32"
  shows "((v div 2 ^ 24 mod 256 * 256 + v div 2 ^ 16 mod 256) * 256 + v div 2 ^ 8 mod 256) * 256
           + v mod 256 = v"
proof -
  define v1 where "v1 = v div 256"
  define v2 where "v2 = v1 div 256"
  define v3 where "v3 = v2 div 256"
  define r0 where "r0 = v mod 256"
  define r1 where "r1 = v1 mod 256"
  define r2 where "r2 = v2 mod 256"
  have d: "v div 2 ^ 8 = v1" "v div 2 ^ 16 = v2" "v div 2 ^ 24 = v3"
    by (simp_all add: v1_def v2_def v3_def zdiv_zmult2_eq)
  have s: "v = v1 * 256 + r0" "v1 = v2 * 256 + r1" "v2 = v3 * 256 + r2"
    by (simp_all add: v1_def v2_def v3_def r0_def r1_def r2_def)
  have "v3 < 256" "0 \<le> v3"
    using assms by (simp_all add: d [symmetric] div_less_iff_less_mult pos_imp_zdiv_nonneg_iff)
  then have m: "v3 mod 256 = v3" by simp
  have "((v3 * 256 + r2) * 256 + r1) * 256 + r0 = v"
    by (subst s(1), subst s(2), subst s(3)) (rule refl)
  then have "((v3 mod 256 * 256 + r2) * 256 + r1) * 256 + r0 = v"
    by (simp only: m)
  then show ?thesis
    by (simp only: d r0_def r1_def r2_def)
qed

lemma int_be_nat:
  fixes a b c d :: int
  assumes "0 \<le> a" "0 \<le> b" "0 \<le> c" "0 \<le> d"
  shows "int (((nat a * 256 + nat b) * 256 + nat c) * 256 + nat d)
           = ((a * 256 + b) * 256 + c) * 256 + d"
  using assms by simp

lemma pack_I_Inr:
  assumes "pack_I v = Inr bs"
  shows "length bs = 4" and "int (be_uint bs) = v"
proof -
  from assms have r: "0 \<le> v" "v < 2 ^ 32"
    and bs: "bs = [word_of_int (drop_bit 24 v), word_of_int (drop_bit 16 v),
                word_of_int (drop_bit 8 v), word_of_int v]"
    by (auto simp: pack_I_def split: if_splits)
  show "length bs = 4" by (simp add: bs)
  have "int (be_uint bs)
      = ((v div 2 ^ 24 mod 256 * 256 + v div 2 ^ 16 mod 256) * 256 + v div 2 ^ 8 mod 256) * 256
           + v mod 256"
    unfolding bs be_uint_4 unat_byte_of_int drop_bit_eq_div
    by (rule int_be_nat) simp_all
  then show "int (be_uint bs) = v"
    by (simp only: split_u32 [OF r])
qed

lemma header_chunk_Inr:
  assumes "header_chunk division = Inr h"
  shows "0 \<le> division \<and> division < 65536 \<and>
    h = bytes_literal ''MThd'' @ [0, 0, 0, 6] @ [0, 0] @ [0, 1] @ [word_of_int (division div 256), word_of_int division]"
  using assms
  by (auto simp: header_chunk_def pack_I_def pack_HHH_def pack_H_def drop_bit_eq_div split: if_splits)

lemma bytes_literal_MThd: "bytes_literal ''MThd'' = [0x4D, 0x54, 0x68, 0x64]"
  by (simp add: bytes_literal_def)

lemma bytes_literal_MTrk: "bytes_literal ''MTrk'' = [0x4D, 0x54, 0x72, 0x6B]"
  by (simp add: bytes_literal_def)


section \<open>The event loop\<close>

lemma event_loop_Inr:
  assumes "event_loop tps events (track, last_time) = Inr (track', last_time')"
  shows "\<exists>ks. delta_ticks tps last_time events = map Inr ks
    \<and> track' = track @ concat (map2 (\<lambda>k (t, d). event_bytes k d) ks events)"
  using assms
proof (induction events arbitrary: track last_time)
  case Nil
  then show ?case by simp
next
  case (Cons ev events)
  obtain timestamp data where ev: "ev = (timestamp, data)" by (cases ev)
  from Cons.prems obtain ticks d where
    t: "ticks_of timestamp last_time tps = Inr ticks" and
    d: "bytes data = Inr d" and
    rest: "event_loop tps events (track @ map word_of_int (encode_var_len ticks) @ d, timestamp)
             = Inr (track', last_time')"
    by (auto simp: ev bytes_encode_var_len split: sum.splits)
  from d have d': "d = map word_of_int data"
    by (auto simp: bytes_def split: if_splits)
  from Cons.IH [OF rest] obtain ks where
    ks: "delta_ticks tps timestamp events = map Inr ks"
      "track' = (track @ map word_of_int (encode_var_len ticks) @ d)
                  @ concat (map2 (\<lambda>k (t, d). event_bytes k d) ks events)"
    by blast
  have "delta_ticks tps last_time (ev # events) = map Inr (ticks # ks)"
    by (simp add: ev t ks)
  moreover have "track' = track @ concat (map2 (\<lambda>k (t, d). event_bytes k d) (ticks # ks) (ev # events))"
    by (simp add: ks ev d' event_bytes_def)
  ultimately show ?case by blast
qed


lemma ticks_example: "ticks_of (1 / 2) 0 192 = Inr 96"
  by code_simp

lemma encode_96: "encode_var_len 96 = [0x60]"
  by code_simp

lemma header_96: "header_chunk 96 = Inr [0x4D, 0x54, 0x68, 0x64, 0, 0, 0, 6, 0, 0, 0, 1, 0, 0x60]"
  by code_simp

lemma example_run:
  "write_midi_file fn [(1 / 2, [0x90, 0x40, 0x7F])] 96 w =
     ([(1 / 2, [0x90, 0x40, 0x7F])],
      Inr (w\<lparr>files := (files w)(fn \<mapsto>
               [0x4D, 0x54, 0x68, 0x64, 0, 0, 0, 6, 0, 0, 0, 1, 0, 0x60,
                0x4D, 0x54, 0x72, 0x6B, 0, 0, 0, 8,
                0x60, 0x90, 0x40, 0x7F, 0x00, 0xFF, 0x2F, 0x00]),
             stdout := stdout w @ [''MIDI file written to '' @ fn]\<rparr>))"
  by (simp add: write_midi_file_def ticks_per_second_def ticks_example encode_96 header_96 bytes_def
      track_chunk_def pack_I_def bytes_literal_def)

section \<open>The file written\<close>

lemma pack_H_Inr:
  assumes "pack_H v = Inr bs"
  shows "length bs = 2" and "int (be_uint bs) = v"
proof -
  from assms have r: "0 \<le> v" "v < 2 ^ 16"
    and bs: "bs = [word_of_int (drop_bit 8 v), word_of_int v]"
    by (auto simp: pack_H_def split: if_splits)
  show "length bs = 2" by (simp add: bs)
  have "v div 256 < 256" "0 \<le> v div 256"
    using r by (simp_all add: div_less_iff_less_mult pos_imp_zdiv_nonneg_iff)
  then have m: "v div 256 mod 256 = v div 256" by simp
  have "int (be_uint bs) = v div 256 mod 256 * 256 + v mod 256"
    unfolding bs by (simp add: be_uint_def unat_byte_of_int drop_bit_eq_div)
  then show "int (be_uint bs) = v"
    by (simp add: m)
qed

lemma write_midi_file_Inr:
  assumes "write_midi_file filename events division w = (events', Inr w')"
  obtains header ks len where
    "events' = sort_key fst events"
    "header_chunk division = Inr header"
    "delta_ticks (ticks_per_second division) 0 events' = map Inr ks"
    "pack_I (int (length (concat (map2 (\<lambda>k (t, d). event_bytes k d) ks events')) + 4)) = Inr len"
    "files w' filename = Some (header @ bytes_literal ''MTrk'' @ len
        @ concat (map2 (\<lambda>k (t, d). event_bytes k d) ks events') @ [0x00, 0xFF, 0x2F, 0x00])"
proof -
  from assms have ev: "events' = sort_key fst events"
    by (simp add: write_midi_file_def Let_def)
  from assms obtain header track last_time chunk where
    h: "header_chunk division = Inr header" and
    l: "event_loop (ticks_per_second division) events' ([], 0) = Inr (track, last_time)" and
    c: "track_chunk (track @ [0x00, 0xFF, 0x2F, 0x00]) = Inr chunk" and
    w': "w' = w\<lparr>files := (files w)(filename \<mapsto> header @ chunk),
                  stdout := stdout w @ [''MIDI file written to '' @ filename]\<rparr>"
    by (auto simp: write_midi_file_def Let_def split: sum.splits)
  from event_loop_Inr [OF l] obtain ks where
    ks: "delta_ticks (ticks_per_second division) 0 events' = map Inr ks"
        "track = concat (map2 (\<lambda>k (t, d). event_bytes k d) ks events')"
    by auto
  from c obtain len where
    len: "pack_I (int (length (track @ [0x00, 0xFF, 0x2F, 0x00]))) = Inr len" and
    chunk: "chunk = bytes_literal ''MTrk'' @ len @ track @ [0x00, 0xFF, 0x2F, 0x00]"
    by (auto simp: track_chunk_def split: sum.splits)
  show thesis
  proof (rule that [OF ev h ks(1)])
    show "pack_I (int (length (concat (map2 (\<lambda>k (t, d). event_bytes k d) ks events')) + 4)) = Inr len"
      using len by (simp add: ks(2) add.commute)
    show "files w' filename = Some (header @ bytes_literal ''MTrk'' @ len
        @ concat (map2 (\<lambda>k (t, d). event_bytes k d) ks events') @ [0x00, 0xFF, 0x2F, 0x00])"
      by (simp add: w' chunk ks(2))
  qed
qed

lemma length_event_bytes: "length (event_bytes k d) = length (encode_var_len k) + length d"
  by (simp add: event_bytes_def)

lemma length_concat_events:
  "length (concat (map2 (\<lambda>k (t, d). event_bytes k d) ks evs))
     = (\<Sum>(k, t, d) \<leftarrow> zip ks evs. length (encode_var_len k) + length d)"
  by (induction ks evs rule: list_induct2') (auto simp: length_event_bytes)

lemma track_length_field_of_run:
  assumes "write_midi_file filename events division w = (events', Inr w')"
  shows "\<exists>out ks. files w' filename = Some out
     \<and> take 4 (drop 14 out) = bytes_literal ''MTrk''
     \<and> be_uint (take 4 (drop 18 out)) = length (drop 22 out)
     \<and> delta_ticks (ticks_per_second division) 0 events' = map Inr ks
     \<and> drop 22 out = concat (map2 (\<lambda>k (t, d). event_bytes k d) ks events') @ [0x00, 0xFF, 0x2F, 0x00]
     \<and> length (drop 22 out)
         = (\<Sum>(k, t, d) \<leftarrow> zip ks events'. length (encode_var_len k) + length d) + 4"
proof -
  from assms obtain header ks len where
    h: "header_chunk division = Inr header" and
    ks: "delta_ticks (ticks_per_second division) 0 events' = map Inr ks" and
    len: "pack_I (int (length (concat (map2 (\<lambda>k (t, d). event_bytes k d) ks events')) + 4)) = Inr len" and
    f: "files w' filename = Some (header @ bytes_literal ''MTrk'' @ len
        @ concat (map2 (\<lambda>k (t, d). event_bytes k d) ks events') @ [0x00, 0xFF, 0x2F, 0x00])"
    by (rule write_midi_file_Inr)
  define body where "body = concat (map2 (\<lambda>k (t, d). event_bytes k d) ks events') @ [0x00, 0xFF, 0x2F, 0x00]"
  define out where "out = header @ bytes_literal ''MTrk'' @ len @ body"
  have lh: "length header = 14"
    using header_chunk_Inr [OF h] by (simp add: bytes_literal_MThd)
  have ll: "length len = 4" and lv: "be_uint len = length body"
    using pack_I_Inr [OF len] by (simp_all add: body_def)
  have lm: "length (bytes_literal ''MTrk'') = 4"
    by (simp add: bytes_literal_MTrk)
  have 1: "take 4 (drop 14 out) = bytes_literal ''MTrk''"
    by (simp add: out_def lh lm)
  have 2: "take 4 (drop 18 out) = len"
    by (simp add: out_def lh lm ll)
  have 3: "drop 22 out = body"
    by (simp add: out_def lh lm ll)
  have 4: "length body = (\<Sum>(k, t, d) \<leftarrow> zip ks events'. length (encode_var_len k) + length d) + 4"
    by (simp add: body_def length_concat_events)
  have "files w' filename = Some out"
    by (simp add: f out_def body_def)
  with 1 2 3 4 lv ks show ?thesis
    unfolding body_def by (intro exI [of _ out] exI [of _ ks]) simp
qed


text \<open>
  C6. One event at 0.5 s with the bytes \<open>90 40 7F\<close> and division 96: 192 ticks per
  second, a delta of 96 ticks encoded as \<open>60\<close>, the track body
  \<open>60 90 40 7F 00 FF 2F 00\<close> and the length field \<open>00 00 00 08\<close>.
\<close>

theorem single_event_example:
  "ticks_per_second 96 = 192
   \<and> ticks_of (1 / 2) 0 (ticks_per_second 96) = Inr 96
   \<and> encode_var_len 96 = [0x60]
   \<and> event_loop (ticks_per_second 96) [(1 / 2, [0x90, 0x40, 0x7F])] ([], 0)
        = Inr ([0x60, 0x90, 0x40, 0x7F], 1 / 2)
   \<and> track_chunk ([0x60, 0x90, 0x40, 0x7F] @ [0x00, 0xFF, 0x2F, 0x00])
        = Inr (bytes_literal ''MTrk'' @ [0, 0, 0, 8]
               @ [0x60, 0x90, 0x40, 0x7F, 0x00, 0xFF, 0x2F, 0x00])
   \<and> write_midi_file filename [(1 / 2, [0x90, 0x40, 0x7F])] 96 w =
       ([(1 / 2, [0x90, 0x40, 0x7F])],
        Inr (w\<lparr>files := (files w)(filename \<mapsto>
               [0x4D, 0x54, 0x68, 0x64, 0, 0, 0, 6, 0, 0, 0, 1, 0, 0x60,
                0x4D, 0x54, 0x72, 0x6B, 0, 0, 0, 8,
                0x60, 0x90, 0x40, 0x7F, 0x00, 0xFF, 0x2F, 0x00]),
             stdout := stdout w @ [''MIDI file written to '' @ filename]\<rparr>))"
proof -
  have 1: "ticks_per_second 96 = 192"
    by (simp add: ticks_per_second_def)
  have 2: "event_loop 192 [(1 / 2, [0x90, 0x40, 0x7F])] ([], 0) = Inr ([0x60, 0x90, 0x40, 0x7F], 1 / 2)"
    by (simp add: ticks_example encode_96 bytes_def)
  have 3: "track_chunk ([0x60, 0x90, 0x40, 0x7F] @ [0x00, 0xFF, 0x2F, 0x00])
        = Inr (bytes_literal ''MTrk'' @ [0, 0, 0, 8]
               @ [0x60, 0x90, 0x40, 0x7F, 0x00, 0xFF, 0x2F, 0x00])"
    by (simp add: track_chunk_def pack_I_def)
  show ?thesis
    unfolding 1 using 2 3 by (simp add: ticks_example encode_96 example_run)
qed

lemma file_layout_of_run:
  assumes "write_midi_file filename events division w = (events', Inr w')"
  shows "\<exists>dv len body. files w' filename =
       Some (bytes_literal ''MThd'' @ [0, 0, 0, 6] @ [0, 0] @ [0, 1] @ dv
             @ bytes_literal ''MTrk'' @ len @ body @ [0x00, 0xFF, 0x2F, 0x00])
     \<and> be_uint [0, 0, 0, 6] = 6 \<and> be_uint [0, 0] = 0 \<and> be_uint [0, 1] = 1
     \<and> length dv = 2 \<and> int (be_uint dv) = division
     \<and> length len = 4 \<and> be_uint len = length (body @ [0x00, 0xFF, 0x2F, 0x00])"
proof -
  from assms obtain header ks len where
    h: "header_chunk division = Inr header" and
    len: "pack_I (int (length (concat (map2 (\<lambda>k (t, d). event_bytes k d) ks events')) + 4)) = Inr len" and
    f: "files w' filename = Some (header @ bytes_literal ''MTrk'' @ len
        @ concat (map2 (\<lambda>k (t, d). event_bytes k d) ks events') @ [0x00, 0xFF, 0x2F, 0x00])"
    by (rule write_midi_file_Inr)
  define body where "body = concat (map2 (\<lambda>k (t, d). event_bytes k d) ks events')"
  from h obtain dv where
    dv: "pack_H division = Inr dv" and
    header: "header = bytes_literal ''MThd'' @ [0, 0, 0, 6] @ [0, 0] @ [0, 1] @ dv"
    by (auto simp: header_chunk_def pack_HHH_def pack_I_def pack_H_def split: if_splits)
  have "be_uint len = length (body @ [0x00, 0xFF, 0x2F, 0x00])"
    using pack_I_Inr (2) [OF len] by (simp add: body_def)
  moreover have "be_uint [0, 0, 0, 6] = 6" "be_uint [0, 0] = 0" "be_uint [0, 1] = 1"
    by (simp_all add: be_uint_def)
  moreover have "files w' filename =
       Some (bytes_literal ''MThd'' @ [0, 0, 0, 6] @ [0, 0] @ [0, 1] @ dv
             @ bytes_literal ''MTrk'' @ len @ body @ [0x00, 0xFF, 0x2F, 0x00])"
    by (simp add: f header body_def)
  ultimately show ?thesis
    using pack_H_Inr [OF dv] pack_I_Inr (1) [OF len] by blast
qed

text \<open>
  C10. On an empty list of events and a division that fits 16 bits, \<open>write_midi_file\<close>
  raises nothing and writes 26 bytes: the 14 bytes of the header chunk, then \<open>MTrk\<close>,
  the length 4 and the body \<open>00 FF 2F 00\<close>.
\<close>

theorem empty_events_output:
  assumes "0 \<le> division" "division < 2 ^ 16"
  shows "write_midi_file filename [] division w =
      ([], Inr (w\<lparr>files := (files w)(filename \<mapsto>
                    bytes_literal ''MThd'' @ [0, 0, 0, 6] @ [0, 0] @ [0, 1]
                      @ [word_of_int (drop_bit 8 division), word_of_int division]
                      @ bytes_literal ''MTrk'' @ [0, 0, 0, 4] @ [0x00, 0xFF, 0x2F, 0x00]),
                stdout := stdout w @ [''MIDI file written to '' @ filename]\<rparr>))
    \<and> length (bytes_literal ''MThd'' @ [0, 0, 0, 6] @ [0, 0] @ [0, 1]
                      @ [word_of_int (drop_bit 8 division), word_of_int division :: byte]
                      @ bytes_literal ''MTrk'' @ [0, 0, 0, 4] @ [0x00, 0xFF, 0x2F, 0x00]) = 26
    \<and> length (bytes_literal ''MThd'' @ [0, 0, 0, 6] @ [0, 0] @ [0, 1]
                      @ [word_of_int (drop_bit 8 division), word_of_int division :: byte]) = 14
    \<and> be_uint [0, 0, 0, 4] = length [0x00, 0xFF, 0x2F, 0x00 :: byte]"
proof -
  have h: "header_chunk division = Inr (bytes_literal ''MThd'' @ [0, 0, 0, 6] @ [0, 0] @ [0, 1]
                      @ [word_of_int (drop_bit 8 division), word_of_int division])"
    using assms by (simp add: header_chunk_def pack_I_def pack_HHH_def pack_H_def)
  have c: "track_chunk ([] @ [0x00, 0xFF, 0x2F, 0x00])
             = Inr (bytes_literal ''MTrk'' @ [0, 0, 0, 4] @ [0x00, 0xFF, 0x2F, 0x00])"
    by (simp add: track_chunk_def pack_I_def)
  have "write_midi_file filename [] division w =
      ([], Inr (w\<lparr>files := (files w)(filename \<mapsto>
                    bytes_literal ''MThd'' @ [0, 0, 0, 6] @ [0, 0] @ [0, 1]
                      @ [word_of_int (drop_bit 8 division), word_of_int division]
                      @ bytes_literal ''MTrk'' @ [0, 0, 0, 4] @ [0x00, 0xFF, 0x2F, 0x00]),
                stdout := stdout w @ [''MIDI file written to '' @ filename]\<rparr>))"
    unfolding write_midi_file_def using c by (simp add: h)
  then show ?thesis
    by (simp add: bytes_literal_def be_uint_def)
qed

theorem empty_events_output_witness:
  "(0::int) \<le> 96 \<and> (96::int) < 2 ^ 16
   \<and> write_midi_file ''output.mid'' [] 96 \<lparr>files = Map.empty, stdout = []\<rparr> =
      ([], Inr \<lparr>files = [''output.mid'' \<mapsto>
                    [0x4D, 0x54, 0x68, 0x64, 0, 0, 0, 6, 0, 0, 0, 1, 0, 0x60,
                     0x4D, 0x54, 0x72, 0x6B, 0, 0, 0, 4, 0x00, 0xFF, 0x2F, 0x00]],
                stdout = [''MIDI file written to output.mid'']\<rparr>)"
  using empty_events_output [of 96 "''output.mid''" "\<lparr>files = Map.empty, stdout = []\<rparr>"]
  by (simp add: bytes_literal_def)

text \<open>
  C9, as the specification states it, fails: \<^verbatim>\<open>events.sort\<close> works on the caller's
  list object, so a list that is not in timestamp order is in another order after the
  call.
\<close>

theorem events_list_reordered_counterexample:
  "fst (write_midi_file ''output.mid'' [(1, [0x80, 0x40, 0x00]), (1 / 2, [0x90, 0x40, 0x7F])] 96
         \<lparr>files = Map.empty, stdout = []\<rparr>)
     = [(1 / 2, [0x90, 0x40, 0x7F]), (1, [0x80, 0x40, 0x00])]
   \<and> fst (write_midi_file ''output.mid'' [(1, [0x80, 0x40, 0x00]), (1 / 2, [0x90, 0x40, 0x7F])] 96
         \<lparr>files = Map.empty, stdout = []\<rparr>)
     \<noteq> [(1, [0x80, 0x40, 0x00]), (1 / 2, [0x90, 0x40, 0x7F])]"
  by (simp add: write_midi_file_def Let_def)

text \<open>
  C9, amended. After the call, whether it returns or raises, the caller's list is the
  stable sort by timestamp of what it was: the same events, each as often as before,
  and in the same order exactly when the list was in timestamp order already.
\<close>

theorem events_list_sorted_in_place:
  "fst (write_midi_file filename events division w) = sort_key fst events
   \<and> mset (fst (write_midi_file filename events division w)) = mset events
   \<and> (fst (write_midi_file filename events division w) = events) = sorted (map fst events)"
proof -
  have 1: "fst (write_midi_file filename events division w) = sort_key fst events"
    by (simp add: write_midi_file_def Let_def)
  have 2: "(sort_key fst events = events) = sorted (map fst events)"
  proof
    assume "sort_key fst events = events"
    then have "sorted (map fst events) = sorted (map fst (sort_key fst events))" by simp
    then show "sorted (map fst events)" by simp
  next
    assume "sorted (map fst events)"
    then show "sort_key fst events = events" by (rule sort_key_id_if_sorted)
  qed
  show ?thesis
    by (simp add: 1 2)
qed

theorem events_list_sorted_in_place_witness:
  "fst (write_midi_file ''output.mid''
          [(1, [0x80, 0x40, 0x00]), (1 / 2, [0x90, 0x40, 0x7F]), (1 / 2, [0x90, 0x43, 0x7F])] 96
          \<lparr>files = Map.empty, stdout = []\<rparr>)
     = [(1 / 2, [0x90, 0x40, 0x7F]), (1 / 2, [0x90, 0x43, 0x7F]), (1, [0x80, 0x40, 0x00])]"
  using events_list_sorted_in_place [of "''output.mid''"
          "[(1, [0x80, 0x40, 0x00]), (1 / 2, [0x90, 0x40, 0x7F]), (1 / 2, [0x90, 0x43, 0x7F])]" 96
          "\<lparr>files = Map.empty, stdout = []\<rparr>"]
  by simp

section \<open>Float rounding\<close>

lemma round_half_even_nonneg: "0 \<le> x \<Longrightarrow> 0 \<le> round_half_even x"
  by (auto simp: round_half_even_def Let_def)

lemma round_half_even_of_int [simp]: "round_half_even (of_int m) = m"
  by (simp add: round_half_even_def)

lemma round_half_even_close: "\<bar>of_int (round_half_even x) - x\<bar> \<le> 1 / 2"
proof -
  define f where "f = \<lfloor>x\<rfloor>"
  have "of_int f \<le> x" "x < of_int f + 1"
    unfolding f_def by linarith+
  then show ?thesis
    unfolding round_half_even_def Let_def f_def [symmetric]
    by (auto simp: abs_le_iff)
qed

lemma binade_bounds:
  assumes "x \<noteq> 0"
  shows "2 powi binade x \<le> \<bar>x\<bar>" and "\<bar>x\<bar> < 2 powi (binade x + 1)"
proof -
  obtain p q where pq: "quotient_of \<bar>x\<bar> = (p, q)"
    by (cases "quotient_of \<bar>x\<bar>")
  have q: "0 < q" using pq by (rule quotient_of_denom_pos)
  have x: "\<bar>x\<bar> = of_int p / of_int q" using pq by (rule quotient_of_div)
  have "0 < \<bar>x\<bar>" using assms by simp
  then have p: "0 < p"
    using q by (simp add: x zero_less_divide_iff)
  define bp where "bp = bitlen p"
  define bq where "bq = bitlen q"
  have bp1: "1 \<le> bp" and bq1: "1 \<le> bq"
    using p q bitlen_eq_zero_iff [of p] bitlen_eq_zero_iff [of q] bitlen_nonneg [of p] bitlen_nonneg [of q]
    by (simp_all add: bp_def bq_def)
  have pl: "(2::rat) powi (bp - 1) \<le> of_int p" and pu: "(of_int p :: rat) < 2 powi bp"
  proof -
    from bitlen_bounds [OF p] have "2 ^ nat (bp - 1) \<le> p" "p < 2 ^ nat bp"
      by (simp_all add: bp_def)
    then have "(of_int (2 ^ nat (bp - 1)) :: rat) \<le> of_int p" "(of_int p :: rat) < of_int (2 ^ nat bp)"
      by (simp_all only: of_int_le_iff of_int_less_iff)
    then show "(2::rat) powi (bp - 1) \<le> of_int p" "(of_int p :: rat) < 2 powi bp"
      using bp1 by (simp_all add: power_int_nonneg_exp)
  qed
  have ql: "(2::rat) powi (bq - 1) \<le> of_int q" and qu: "(of_int q :: rat) < 2 powi bq"
  proof -
    from bitlen_bounds [OF q] have "2 ^ nat (bq - 1) \<le> q" "q < 2 ^ nat bq"
      by (simp_all add: bq_def)
    then have "(of_int (2 ^ nat (bq - 1)) :: rat) \<le> of_int q" "(of_int q :: rat) < of_int (2 ^ nat bq)"
      by (simp_all only: of_int_le_iff of_int_less_iff)
    then show "(2::rat) powi (bq - 1) \<le> of_int q" "(of_int q :: rat) < 2 powi bq"
      using bq1 by (simp_all add: power_int_nonneg_exp)
  qed
  have qpos: "(0::rat) < of_int q" using q by simp
  have lower: "(2::rat) powi (bp - bq - 1) \<le> \<bar>x\<bar>"
  proof -
    have "(2::rat) powi (bp - bq - 1) * of_int q \<le> 2 powi (bp - bq - 1) * 2 powi bq"
      using qu by (intro mult_left_mono) simp_all
    also have "\<dots> = 2 powi (bp - 1)"
      by (simp flip: power_int_add)
    also have "\<dots> \<le> of_int p" by (rule pl)
    finally show ?thesis
      using qpos by (simp add: x pos_le_divide_eq)
  qed
  have upper: "\<bar>x\<bar> < (2::rat) powi (bp - bq + 1)"
  proof -
    have "of_int p < (2::rat) powi bp" by (rule pu)
    also have "\<dots> = 2 powi (bp - bq + 1) * 2 powi (bq - 1)"
      by (simp flip: power_int_add)
    also have "\<dots> \<le> 2 powi (bp - bq + 1) * of_int q"
      using ql by (intro mult_left_mono) simp_all
    finally show ?thesis
      using qpos by (simp add: x pos_divide_less_eq)
  qed
  have b: "binade x = (if 2 powi (bp - bq) \<le> \<bar>x\<bar> then bp - bq else bp - bq - 1)"
    by (simp add: binade_def pq bp_def bq_def Let_def)
  show "2 powi binade x \<le> \<bar>x\<bar>"
    using lower by (simp add: b)
  show "\<bar>x\<bar> < 2 powi (binade x + 1)"
    using upper by (auto simp: b not_le)
qed


lemma round_to_double_nonneg:
  assumes "0 \<le> x"
  shows "round_to_double x = PosInf \<or> (\<exists>y. round_to_double x = Finite y \<and> 0 \<le> y)"
proof (cases "x = 0")
  case True
  then show ?thesis by (simp add: round_to_double_def)
next
  case False
  define e where "e = max (binade x - 52) (- 1074)"
  define y where "y = (of_int (round_half_even (x / 2 powi e)) :: rat) * 2 powi e"
  have "0 \<le> x / 2 powi e" using assms by simp
  then have "0 \<le> round_half_even (x / 2 powi e)" by (rule round_half_even_nonneg)
  then have y: "0 \<le> y" by (simp add: y_def)
  have "round_to_double x = (if 2 ^ 1024 \<le> \<bar>y\<bar> then (if 0 < y then PosInf else NegInf) else Finite y)"
    using False by (simp add: round_to_double_def Let_def e_def y_def)
  then show ?thesis
    using y by (cases "2 ^ 1024 \<le> \<bar>y\<bar>") auto
qed

lemma round_to_double_of_int:
  assumes "\<bar>i\<bar> < 2 ^ 53"
  shows "round_to_double (of_int i) = Finite (of_int i)"
proof (cases "i = 0")
  case True
  then show ?thesis by (simp add: round_to_double_def)
next
  case False
  define x :: rat where "x = of_int i"
  have x0: "x \<noteq> 0" using False by (simp add: x_def)
  define e where "e = max (binade x - 52) (- 1074)"
  have "\<bar>x\<bar> < 2 ^ 53"
    using assms unfolding x_def by (simp flip: of_int_abs add: of_int_less_numeral_power_cancel_iff)
  with binade_bounds(1) [OF x0] have "(2::rat) powi binade x < 2 powi 53"
    by simp
  then have "binade x < 53"
    by (rule power_int_le_imp_less_exp [rotated]) simp_all
  then have e: "e \<le> 0" by (simp add: e_def)
  define m where "m = nat (- e)"
  have pe: "(2::rat) powi e = 1 / 2 ^ m"
    using e by (simp add: m_def power_int_def field_simps)
  have "x / 2 powi e = of_int (i * 2 ^ m)"
    by (simp add: pe x_def)
  then have "round_half_even (x / 2 powi e) = i * 2 ^ m"
    by (simp only: round_half_even_of_int)
  then have y: "(of_int (round_half_even (x / 2 powi e)) :: rat) * 2 powi e = x"
    by (simp add: pe x_def)
  have "\<bar>x\<bar> < 2 ^ 1024"
    using \<open>\<bar>x\<bar> < 2 ^ 53\<close> by (rule less_trans) simp
  then show ?thesis
    using x0 y unfolding x_def [symmetric] round_to_double_def Let_def e_def [symmetric]
    by (simp add: not_le [symmetric])
qed

lemma float_of_int_exact: "\<bar>i\<bar> < 2 ^ 53 \<Longrightarrow> float_of_int i = Inr (of_int i)"
  by (simp add: float_of_int_def round_to_double_of_int)

lemma ticks_of_same:
  assumes "\<bar>tps\<bar> < 2 ^ 53"
  shows "ticks_of t t tps = Inr 0"
proof -
  have "round_half_even 0 = 0"
    using round_half_even_of_int [of 0] by simp
  then show ?thesis
    using assms by (simp add: ticks_of_def float_sub_def float_of_int_exact round_to_double_def)
qed

lemma ticks_of_nonneg:
  assumes "last_time \<le> timestamp" "0 \<le> tps" "ticks_of timestamp last_time tps = Inr k"
  shows "0 \<le> k"
proof -
  from assms(3) obtain f where f: "float_of_int tps = Inr f"
    and k: "py_round (float_mul (float_sub timestamp last_time) f) = Inr k"
    by (auto simp: ticks_of_def Let_def split: sum.splits)
  from f have "round_to_double (of_int tps) = Finite f"
    by (auto simp: float_of_int_def split: pyfloat.splits)
  moreover have "(0::rat) \<le> of_int tps" using assms(2) by simp
  ultimately have f0: "0 \<le> f"
    using round_to_double_nonneg [of "of_int tps"] by auto
  have "0 \<le> timestamp - last_time" using assms(1) by simp
  from round_to_double_nonneg [OF this]
  show ?thesis
  proof
    assume "round_to_double (timestamp - last_time) = PosInf"
    with k show ?thesis
      by (auto simp: float_sub_def split: if_splits)
  next
    assume "\<exists>y. round_to_double (timestamp - last_time) = Finite y \<and> 0 \<le> y"
    then obtain y where y: "round_to_double (timestamp - last_time) = Finite y" "0 \<le> y"
      by blast
    have "0 \<le> y * f" using y(2) f0 by simp
    from round_to_double_nonneg [OF this] k y(1)
    show ?thesis
      by (auto simp: float_sub_def round_half_even_nonneg)
  qed
qed

section \<open>The timeline\<close>

lemma length_delta_ticks [simp]: "length (delta_ticks tps last_time evs) = length evs"
  by (induction evs arbitrary: last_time) auto

lemma delta_ticks_nth:
  "Suc i < length evs \<Longrightarrow>
     delta_ticks tps last_time evs ! Suc i = ticks_of (fst (evs ! Suc i)) (fst (evs ! i)) tps"
proof (induction evs arbitrary: i last_time)
  case Nil
  then show ?case by simp
next
  case (Cons ev evs)
  obtain t d where ev: "ev = (t, d)" by (cases ev)
  show ?case
  proof (cases i)
    case 0
    with Cons.prems obtain ev' evs' where evs: "evs = ev' # evs'"
      by (cases evs) auto
    obtain t' d' where ev': "ev' = (t', d')" by (cases ev')
    show ?thesis by (simp add: 0 ev evs ev')
  next
    case (Suc j)
    with Cons.prems have "Suc j < length evs" by simp
    from Cons.IH [OF this, of t] show ?thesis
      by (simp add: Suc ev)
  qed
qed

lemma delta_ticks_nonneg:
  assumes "sorted (map fst evs)" "\<forall>e\<in>set evs. last_time \<le> fst e" "0 \<le> tps"
    "Inr k \<in> set (delta_ticks tps last_time evs)"
  shows "0 \<le> k"
  using assms
proof (induction evs arbitrary: last_time)
  case Nil
  then show ?case by simp
next
  case (Cons ev evs)
  obtain t d where ev: "ev = (t, d)" by (cases ev)
  from Cons.prems(4) consider
    "ticks_of t last_time tps = Inr k" | "Inr k \<in> set (delta_ticks tps t evs)"
    by (auto simp: ev)
  then show ?case
  proof cases
    case 1
    have "last_time \<le> t" using Cons.prems(2) by (simp add: ev)
    then show ?thesis using Cons.prems(3) 1 by (rule ticks_of_nonneg)
  next
    case 2
    have "sorted (map fst evs)" "\<forall>e\<in>set evs. t \<le> fst e"
      using Cons.prems(1) by (auto simp: ev)
    from Cons.IH [OF this Cons.prems(3) 2] show ?thesis .
  qed
qed

lemma sorted_split3:
  fixes f :: "'a \<Rightarrow> 'k::linorder"
  assumes "sorted (map f xs)"
  shows "xs = filter (\<lambda>e. f e < t) xs @ filter (\<lambda>e. f e = t) xs @ filter (\<lambda>e. t < f e) xs"
  using assms
proof (induction xs)
  case Nil
  then show ?case by simp
next
  case (Cons x xs)
  then have le: "\<forall>y\<in>set xs. f x \<le> f y" and s: "sorted (map f xs)"
    by auto
  note IH = Cons.IH [OF s]
  consider "f x < t" | "f x = t" | "t < f x" by (rule linorder_cases)
  then show ?case
  proof cases
    case 1
    then have "f x \<noteq> t" "\<not> t < f x" by auto
    with 1 show ?thesis using IH by simp
  next
    case 2
    then have "filter (\<lambda>e. f e < t) xs = []"
      using le by (auto simp: filter_empty_conv)
    then show ?thesis using IH 2 by simp
  next
    case 3
    then have n: "f x \<noteq> t" "\<not> f x < t" by auto
    from 3 have "filter (\<lambda>e. f e < t) xs = []" "filter (\<lambda>e. f e = t) xs = []"
      using le by (auto simp: filter_empty_conv)
    then show ?thesis using IH 3 n by simp
  qed
qed

lemma fst_write_midi_file: "fst (write_midi_file filename events division w) = sort_key fst events"
  by (simp add: write_midi_file_def Let_def)

text \<open>
  C4, amended. When no timestamp is negative and the division is not negative, the
  list after the sort is in ascending timestamp order and every delta the event loop
  computes from it is at least 0; when the call returns, every event has its delta.
\<close>

theorem sorted_nonneg_deltas:
  assumes "\<forall>e\<in>set events. 0 \<le> fst e" and "0 \<le> division"
  shows "sorted (map fst (fst (write_midi_file filename events division w)))
    \<and> (\<forall>k. Inr k \<in> set (delta_ticks (ticks_per_second division) 0
                          (fst (write_midi_file filename events division w))) \<longrightarrow> 0 \<le> k)
    \<and> (\<forall>w'. snd (write_midi_file filename events division w) = Inr w' \<longrightarrow>
          (\<exists>ks. delta_ticks (ticks_per_second division) 0
                   (fst (write_midi_file filename events division w)) = map Inr ks
                \<and> list_all (\<lambda>k. 0 \<le> k) ks))"
proof -
  define tl where "tl = fst (write_midi_file filename events division w)"
  have tl: "tl = sort_key fst events"
    by (simp add: tl_def fst_write_midi_file)
  have s: "sorted (map fst tl)"
    by (simp add: tl)
  have p: "\<forall>e\<in>set tl. 0 \<le> fst e"
    using assms(1) by (simp add: tl)
  have t: "0 \<le> ticks_per_second division"
    using assms(2) by (simp add: ticks_per_second_def)
  have n: "0 \<le> k" if "Inr k \<in> set (delta_ticks (ticks_per_second division) 0 tl)" for k
    using s p t that by (rule delta_ticks_nonneg)
  have "\<exists>ks. delta_ticks (ticks_per_second division) 0 tl = map Inr ks \<and> list_all (\<lambda>k. 0 \<le> k) ks"
    if "snd (write_midi_file filename events division w) = Inr w'" for w'
  proof -
    from that have "write_midi_file filename events division w = (tl, Inr w')"
      by (simp add: tl_def prod_eq_iff)
    then obtain ks where ks: "delta_ticks (ticks_per_second division) 0 tl = map Inr ks"
      by (rule write_midi_file_Inr)
    have "list_all (\<lambda>k. 0 \<le> k) ks"
      unfolding list_all_iff
    proof
      fix k assume "k \<in> set ks"
      then have "Inr k \<in> set (delta_ticks (ticks_per_second division) 0 tl)"
        by (simp add: ks)
      then show "0 \<le> k" by (rule n)
    qed
    with ks show ?thesis by blast
  qed
  with s n show ?thesis
    unfolding tl_def by blast
qed


lemma ticks_negative_example: "ticks_of (- 1) 0 192 = Inr (- 192)"
  by code_simp

lemma encode_negative_192: "encode_var_len (- 192) = [0x40]"
  by code_simp

text \<open>
  C4, as the specification states it, fails: the first delta is taken from time 0.0 and
  nothing clamps it, so one event at \<open>-1.0\<close> s gets the delta \<open>-192\<close>, which
  \<open>encode_var_len\<close> writes as the byte \<open>40\<close>.
\<close>

theorem negative_delta_counterexample:
  "delta_ticks (ticks_per_second 96) 0
      (fst (write_midi_file ''output.mid'' [(- 1, [0x90, 0x40, 0x7F])] 96
             \<lparr>files = Map.empty, stdout = []\<rparr>))
     = [Inr (- 192)]
   \<and> write_midi_file ''output.mid'' [(- 1, [0x90, 0x40, 0x7F])] 96 \<lparr>files = Map.empty, stdout = []\<rparr>
     = ([(- 1, [0x90, 0x40, 0x7F])],
        Inr \<lparr>files = [''output.mid'' \<mapsto>
               [0x4D, 0x54, 0x68, 0x64, 0, 0, 0, 6, 0, 0, 0, 1, 0, 0x60,
                0x4D, 0x54, 0x72, 0x6B, 0, 0, 0, 8,
                0x40, 0x90, 0x40, 0x7F, 0x00, 0xFF, 0x2F, 0x00]],
              stdout = [''MIDI file written to output.mid'']\<rparr>)"
  by (simp add: write_midi_file_def ticks_per_second_def ticks_negative_example
      encode_negative_192 header_96 bytes_def track_chunk_def pack_I_def bytes_literal_def)

lemma ticks_example_2: "ticks_of 1 (1 / 2) 192 = Inr 96"
  by code_simp

lemma ticks_example_3: "ticks_of (1 / 2) (1 / 2) 192 = Inr 0"
  by code_simp

theorem sorted_nonneg_deltas_witness:
  "fst (write_midi_file ''output.mid''
          [(1, [0x80, 0x40, 0x00]), (1 / 2, [0x90, 0x40, 0x7F]), (1 / 2, [0x90, 0x43, 0x7F])] 96
          \<lparr>files = Map.empty, stdout = []\<rparr>)
     = [(1 / 2, [0x90, 0x40, 0x7F]), (1 / 2, [0x90, 0x43, 0x7F]), (1, [0x80, 0x40, 0x00])]
   \<and> sorted (map fst [(1 / 2 :: rat, [0x90, 0x40, 0x7F :: int]), (1 / 2, [0x90, 0x43, 0x7F]),
                       (1, [0x80, 0x40, 0x00])])
   \<and> delta_ticks (ticks_per_second 96) 0
        [(1 / 2, [0x90, 0x40, 0x7F]), (1 / 2, [0x90, 0x43, 0x7F]), (1, [0x80, 0x40, 0x00])]
     = [Inr 96, Inr 0, Inr 96]
   \<and> (0::int) \<le> 96 \<and> (0::int) \<le> 0"
proof -
  have h: "\<forall>e\<in>set [(1 :: rat, [0x80, 0x40, 0x00 :: int]), (1 / 2, [0x90, 0x40, 0x7F]),
                      (1 / 2, [0x90, 0x43, 0x7F])]. 0 \<le> fst e"
    by simp
  have d: "(0::int) \<le> 96" by simp
  have e: "fst (write_midi_file ''output.mid''
          [(1, [0x80, 0x40, 0x00]), (1 / 2, [0x90, 0x40, 0x7F]), (1 / 2, [0x90, 0x43, 0x7F])] 96
          \<lparr>files = Map.empty, stdout = []\<rparr>)
     = [(1 / 2, [0x90, 0x40, 0x7F]), (1 / 2, [0x90, 0x43, 0x7F]), (1, [0x80, 0x40, 0x00])]"
    by (simp add: fst_write_midi_file)
  have t: "delta_ticks (ticks_per_second 96) 0
        [(1 / 2, [0x90, 0x40, 0x7F]), (1 / 2, [0x90, 0x43, 0x7F]), (1, [0x80, 0x40, 0x00])]
     = [Inr 96, Inr 0, Inr 96]"
    by (simp add: ticks_per_second_def ticks_example ticks_example_2 ticks_example_3)
  from sorted_nonneg_deltas [OF h d, of "''output.mid''" "\<lparr>files = Map.empty, stdout = []\<rparr>"]
  have "sorted (map fst [(1 / 2 :: rat, [0x90, 0x40, 0x7F :: int]), (1 / 2, [0x90, 0x43, 0x7F]),
                       (1, [0x80, 0x40, 0x00])])"
    and "\<forall>k. Inr k \<in> set [Inr 96, Inr 0, Inr 96 :: error + int] \<longrightarrow> 0 \<le> k"
    unfolding e t by blast+
  then show ?thesis
    using e t by simp
qed

text \<open>
  C5. For every timestamp \<open>t\<close>, the events at \<open>t\<close> are in the sorted list in the order
  they had in the input, next to each other (after the earlier events, before the later
  ones), and an event that follows one of the same timestamp has the delta 0. The
  division is one the header accepts.
\<close>

theorem equal_timestamps_keep_order:
  assumes "0 \<le> division" "division < 2 ^ 16"
  shows "filter (\<lambda>e. fst e = t) (fst (write_midi_file filename events division w))
           = filter (\<lambda>e. fst e = t) events
    \<and> fst (write_midi_file filename events division w)
        = filter (\<lambda>e. fst e < t) (fst (write_midi_file filename events division w))
          @ filter (\<lambda>e. fst e = t) events
          @ filter (\<lambda>e. t < fst e) (fst (write_midi_file filename events division w))
    \<and> (\<forall>i. Suc i < length events
           \<and> fst (fst (write_midi_file filename events division w) ! i)
               = fst (fst (write_midi_file filename events division w) ! Suc i)
         \<longrightarrow> delta_ticks (ticks_per_second division) 0
                (fst (write_midi_file filename events division w)) ! Suc i = Inr 0)"
proof -
  define tl where "tl = fst (write_midi_file filename events division w)"
  have tl: "tl = sort_key fst events"
    by (simp add: tl_def fst_write_midi_file)
  have 1: "filter (\<lambda>e. fst e = t) tl = filter (\<lambda>e. fst e = t) events"
    unfolding tl by (rule sort_key_stable)
  have "sorted (map fst tl)" by (simp add: tl)
  from sorted_split3 [OF this, of t]
  have 2: "tl = filter (\<lambda>e. fst e < t) tl @ filter (\<lambda>e. fst e = t) events @ filter (\<lambda>e. t < fst e) tl"
    by (simp only: 1)
  have "\<bar>ticks_per_second division\<bar> < 2 ^ 17"
    using assms by (simp add: ticks_per_second_def)
  then have tps: "\<bar>ticks_per_second division\<bar> < 2 ^ 53"
    by (rule less_trans) simp
  have 3: "delta_ticks (ticks_per_second division) 0 tl ! Suc i = Inr 0"
    if "Suc i < length events" "fst (tl ! i) = fst (tl ! Suc i)" for i
  proof -
    from that(1) have "Suc i < length tl" by (simp add: tl)
    then have "delta_ticks (ticks_per_second division) 0 tl ! Suc i
        = ticks_of (fst (tl ! Suc i)) (fst (tl ! i)) (ticks_per_second division)"
      by (rule delta_ticks_nth)
    then show ?thesis
      using that(2) tps by (simp add: ticks_of_same)
  qed
  from 1 2 3 show ?thesis
    unfolding tl_def by blast
qed

theorem equal_timestamps_keep_order_witness:
  "(0::int) \<le> 96 \<and> (96::int) < 2 ^ 16
   \<and> fst (write_midi_file ''output.mid''
          [(1, [0x80, 0x40, 0x00]), (1 / 2, [0x90, 0x40, 0x7F]), (1 / 2, [0x90, 0x43, 0x7F])] 96
          \<lparr>files = Map.empty, stdout = []\<rparr>)
     = [(1 / 2, [0x90, 0x40, 0x7F]), (1 / 2, [0x90, 0x43, 0x7F]), (1, [0x80, 0x40, 0x00])]
   \<and> filter (\<lambda>e. fst e = 1 / 2)
        [(1 :: rat, [0x80, 0x40, 0x00 :: int]), (1 / 2, [0x90, 0x40, 0x7F]), (1 / 2, [0x90, 0x43, 0x7F])]
     = [(1 / 2, [0x90, 0x40, 0x7F]), (1 / 2, [0x90, 0x43, 0x7F])]
   \<and> delta_ticks (ticks_per_second 96) 0
        [(1 / 2, [0x90, 0x40, 0x7F]), (1 / 2, [0x90, 0x43, 0x7F]), (1, [0x80, 0x40, 0x00])] ! Suc 0
     = Inr 0"
proof -
  have e: "fst (write_midi_file ''output.mid''
          [(1, [0x80, 0x40, 0x00]), (1 / 2, [0x90, 0x40, 0x7F]), (1 / 2, [0x90, 0x43, 0x7F])] 96
          \<lparr>files = Map.empty, stdout = []\<rparr>)
     = [(1 / 2, [0x90, 0x40, 0x7F]), (1 / 2, [0x90, 0x43, 0x7F]), (1, [0x80, 0x40, 0x00])]"
    by (simp add: fst_write_midi_file)
  have d: "(0::int) \<le> 96" "(96::int) < 2 ^ 16" by simp_all
  from equal_timestamps_keep_order [OF d, of "1 / 2" "''output.mid''"
      "[(1, [0x80, 0x40, 0x00]), (1 / 2, [0x90, 0x40, 0x7F]), (1 / 2, [0x90, 0x43, 0x7F])]"
      "\<lparr>files = Map.empty, stdout = []\<rparr>"]
  have "\<forall>i. Suc i < 3
           \<and> fst ([(1 / 2 :: rat, [0x90, 0x40, 0x7F :: int]), (1 / 2, [0x90, 0x43, 0x7F]), (1, [0x80, 0x40, 0x00])] ! i)
               = fst ([(1 / 2 :: rat, [0x90, 0x40, 0x7F :: int]), (1 / 2, [0x90, 0x43, 0x7F]), (1, [0x80, 0x40, 0x00])] ! Suc i)
         \<longrightarrow> delta_ticks (ticks_per_second 96) 0
                [(1 / 2, [0x90, 0x40, 0x7F]), (1 / 2, [0x90, 0x43, 0x7F]), (1, [0x80, 0x40, 0x00])] ! Suc i = Inr 0"
    unfolding e by simp
  from this [rule_format, of 0]
  have "delta_ticks (ticks_per_second 96) 0
        [(1 / 2, [0x90, 0x40, 0x7F]), (1 / 2, [0x90, 0x43, 0x7F]), (1, [0x80, 0x40, 0x00])] ! Suc 0
     = Inr 0"
    by simp
  then show ?thesis
    using e by simp
qed

section \<open>When the call returns\<close>

lemma round_half_even_between: "\<lfloor>x\<rfloor> \<le> round_half_even x \<and> round_half_even x \<le> \<lceil>x\<rceil>"
proof -
  define f where "f = \<lfloor>x\<rfloor>"
  have fl: "of_int f \<le> x" "x < of_int f + 1"
    unfolding f_def by linarith+
  have "f + 1 \<le> \<lceil>x\<rceil>" if "of_int f < x"
  proof -
    from that have "f < \<lceil>x\<rceil>" by (simp add: less_ceiling_iff)
    then show ?thesis by simp
  qed
  moreover have "f \<le> \<lceil>x\<rceil>"
  proof -
    have "of_int f - 1 < x" using fl(1) by linarith
    then show ?thesis by (simp only: le_ceiling_iff)
  qed
  ultimately show ?thesis
    unfolding round_half_even_def Let_def f_def [symmetric]
    using fl by (auto simp: f_def [symmetric] le_ceiling_iff) 
qed

lemma round_half_even_abs_le:
  assumes "\<bar>x\<bar> \<le> of_int N"
  shows "\<bar>round_half_even x\<bar> \<le> N"
proof -
  from assms have "- of_int N \<le> x" "x \<le> of_int N" by (simp_all add: abs_le_iff)
  then have "- N \<le> \<lfloor>x\<rfloor>" "\<lceil>x\<rceil> \<le> N"
    by (simp_all add: le_floor_iff ceiling_le_iff)
  with round_half_even_between [of x] show ?thesis by linarith
qed


lemma round_to_double_bounded:
  assumes "\<bar>x\<bar> \<le> 2 ^ k" "k < 1024"
  shows "\<exists>y. round_to_double x = Finite y \<and> \<bar>y\<bar> \<le> 2 ^ k"
proof (cases "x = 0")
  case True
  then show ?thesis by (simp add: round_to_double_def)
next
  case False
  define e where "e = max (binade x - 52) (- 1074)"
  define y where "y = (of_int (round_half_even (x / 2 powi e)) :: rat) * 2 powi e"
  have "(2::rat) powi binade x \<le> 2 powi int k"
    using binade_bounds(1) [OF False] assms(1) by simp
  then have "binade x \<le> int k"
    by (rule power_int_le_imp_le_exp [rotated]) simp_all
  then have ek: "e \<le> int k" by (simp add: e_def)
  define n where "n = nat (int k - e)"
  have n: "int n = int k - e" using ek by (simp add: n_def)
  have p: "(2::rat) powi e * 2 ^ n = 2 ^ k"
  proof -
    have "(2::rat) powi (e + int n) = 2 powi e * 2 powi int n"
      by (subst power_int_add) simp_all
    also have "e + int n = int k" by (simp add: n)
    finally show ?thesis by simp
  qed
  have pos: "(0::rat) < 2 powi e" by simp
  have "\<bar>x / 2 powi e\<bar> = \<bar>x\<bar> / 2 powi e"
    by simp
  also have "\<dots> \<le> 2 ^ k / 2 powi e"
    using assms(1) pos by (simp add: divide_right_mono)
  also have "\<dots> = 2 ^ n"
    using pos p by (simp add: field_simps)
  finally have "\<bar>x / 2 powi e\<bar> \<le> of_int (2 ^ n)"
    by simp
  then have "\<bar>round_half_even (x / 2 powi e)\<bar> \<le> 2 ^ n"
    by (rule round_half_even_abs_le)
  then have "(of_int \<bar>round_half_even (x / 2 powi e)\<bar> :: rat) \<le> of_int (2 ^ n)"
    by (simp only: of_int_le_iff)
  then have "\<bar>(of_int (round_half_even (x / 2 powi e)) :: rat)\<bar> \<le> 2 ^ n"
    by simp
  then have "\<bar>y\<bar> \<le> 2 ^ n * 2 powi e"
    unfolding y_def abs_mult using pos by (simp add: mult_right_mono)
  then have y: "\<bar>y\<bar> \<le> 2 ^ k"
    using p by (simp add: mult.commute)
  have "(2::rat) ^ k < 2 ^ 1024"
    using assms(2) by (intro power_strict_increasing) simp_all
  with y have "\<not> 2 ^ 1024 \<le> \<bar>y\<bar>" by linarith
  then have "round_to_double x = Finite y"
    using False unfolding round_to_double_def Let_def e_def [symmetric] y_def [symmetric]
    by (simp only: if_False)
  with y show ?thesis by blast
qed


lemma ticks_of_returns:
  assumes "\<bar>timestamp\<bar> \<le> 2 ^ 999" "\<bar>last_time\<bar> \<le> 2 ^ 999" "\<bar>tps\<bar> \<le> 2 ^ 17"
  shows "\<exists>k. ticks_of timestamp last_time tps = Inr k \<and> \<bar>k\<bar> \<le> 2 ^ 1017"
proof -
  have "\<bar>tps\<bar> < 2 ^ 53"
    using assms(3) by (rule le_less_trans) simp
  then have f: "float_of_int tps = Inr (of_int tps)"
    by (rule float_of_int_exact)
  have "\<bar>timestamp - last_time\<bar> \<le> \<bar>timestamp\<bar> + \<bar>last_time\<bar>"
    by (rule abs_triangle_ineq4)
  also have "\<dots> \<le> 2 ^ 999 + 2 ^ 999"
    using assms(1,2) by (rule add_mono)
  finally have "\<bar>timestamp - last_time\<bar> \<le> 2 ^ 1000"
    by simp
  from round_to_double_bounded [OF this] obtain y where
    y: "round_to_double (timestamp - last_time) = Finite y" "\<bar>y\<bar> \<le> 2 ^ 1000"
    by auto
  have t: "\<bar>(of_int tps :: rat)\<bar> \<le> 2 ^ 17"
    using assms(3) by (simp flip: of_int_abs add: of_int_le_numeral_power_cancel_iff)
  have "\<bar>y * of_int tps\<bar> = \<bar>y\<bar> * \<bar>(of_int tps :: rat)\<bar>"
    by (rule abs_mult)
  also have "\<dots> \<le> 2 ^ 1000 * 2 ^ 17"
    using y(2) t by (intro mult_mono) simp_all
  finally have "\<bar>y * of_int tps\<bar> \<le> 2 ^ 1017"
    by simp
  from round_to_double_bounded [OF this] obtain z where
    z: "round_to_double (y * of_int tps) = Finite z" "\<bar>z\<bar> \<le> 2 ^ 1017"
    by auto
  from z(2) have "\<bar>z\<bar> \<le> of_int (2 ^ 1017)" by simp
  then have "\<bar>round_half_even z\<bar> \<le> 2 ^ 1017"
    by (rule round_half_even_abs_le)
  moreover have "ticks_of timestamp last_time tps = Inr (round_half_even z)"
    by (simp add: ticks_of_def float_sub_def f y(1) z(1))
  ultimately show ?thesis by blast
qed

lemma length_encode_loop:
  "n < 128 * 128 ^ m \<Longrightarrow> length (encode_loop n bl) \<le> length bl + m"
proof (induction m arbitrary: n bl)
  case 0
  then show ?case by (simp add: encode_loop.simps [of n])
next
  case (Suc m)
  show ?case
  proof (cases "n > 127")
    case True
    have "drop_bit 7 n < 128 * 128 ^ m"
      using Suc.prems by (simp add: drop_bit_eq_div div_less_iff_less_mult)
    from Suc.IH [OF this, of "((drop_bit 7 n AND 0x7F) OR 0x80) # bl"]
    show ?thesis
      using True by (simp add: encode_loop.simps [of n] Let_def)
  next
    case False
    then show ?thesis by (simp add: encode_loop.simps [of n])
  qed
qed

lemma length_encode_var_len:
  assumes "k \<le> 2 ^ 1017"
  shows "length (encode_var_len k) \<le> 146"
proof -
  have "(2::int) ^ 1017 < 128 * 128 ^ 145" by simp
  with assms have "k < 128 * 128 ^ 145" by (rule le_less_trans)
  from length_encode_loop [OF this, of "[k AND 0x7F]"] show ?thesis
    by (simp add: encode_var_len_def)
qed


lemma event_loop_returns:
  assumes "\<forall>e\<in>set events. \<bar>fst e\<bar> \<le> 2 ^ 999 \<and> list_all (\<lambda>b. 0 \<le> b \<and> b < 256) (snd e)"
    and "\<bar>last_time\<bar> \<le> 2 ^ 999" and "\<bar>tps\<bar> \<le> 2 ^ 17"
  shows "\<exists>track' last'. event_loop tps events (track, last_time) = Inr (track', last')
           \<and> length track' \<le> length track + (\<Sum>e\<leftarrow>events. 146 + length (snd e))"
  using assms(1,2)
proof (induction events arbitrary: track last_time)
  case Nil
  then show ?case by simp
next
  case (Cons ev events)
  obtain t d where ev: "ev = (t, d)" by (cases ev)
  from Cons.prems(1) have t: "\<bar>t\<bar> \<le> 2 ^ 999" and d: "list_all (\<lambda>b. 0 \<le> b \<and> b < 256) d"
    and rest: "\<forall>e\<in>set events. \<bar>fst e\<bar> \<le> 2 ^ 999 \<and> list_all (\<lambda>b. 0 \<le> b \<and> b < 256) (snd e)"
    by (simp_all add: ev)
  from ticks_of_returns [OF t Cons.prems(2) assms(3)] obtain k where
    k: "ticks_of t last_time tps = Inr k" "\<bar>k\<bar> \<le> 2 ^ 1017"
    by blast
  from k(2) have "k \<le> 2 ^ 1017" by linarith
  then have lk: "length (encode_var_len k) \<le> 146" by (rule length_encode_var_len)
  define track1 where "track1 = track @ map word_of_int (encode_var_len k) @ map word_of_int d"
  from Cons.IH [OF rest t, of track1] obtain track' last' where
    r: "event_loop tps events (track1, t) = Inr (track', last')"
       "length track' \<le> length track1 + (\<Sum>e\<leftarrow>events. 146 + length (snd e))"
    by blast
  have bd: "bytes d = Inr (map word_of_int d)"
    using d by (simp add: bytes_def)
  have "event_loop tps (ev # events) (track, last_time) = Inr (track', last')"
    by (simp add: ev k(1) bytes_encode_var_len bd r(1) track1_def [symmetric])
  moreover have "length track' \<le> length track + (\<Sum>e\<leftarrow>ev # events. 146 + length (snd e))"
    using r(2) lk by (simp add: track1_def ev)
  ultimately show ?case by blast
qed

lemma sum_list_sort_key:
  fixes f :: "'a \<Rightarrow> nat"
  shows "sum_list (map f (sort_key g xs)) = sum_list (map f xs)"
proof -
  have "sum_list (map f (sort_key g xs)) = sum_mset (image_mset f (mset (sort_key g xs)))"
    by (simp flip: sum_mset_sum_list)
  also have "\<dots> = sum_list (map f xs)"
    by (simp flip: sum_mset_sum_list)
  finally show ?thesis .
qed

lemma write_midi_file_returns:
  assumes "0 \<le> division" "division < 2 ^ 16"
    and "\<forall>e\<in>set events. \<bar>fst e\<bar> \<le> 2 ^ 999 \<and> list_all (\<lambda>b. 0 \<le> b \<and> b < 256) (snd e)"
    and "(\<Sum>e\<leftarrow>events. 146 + length (snd e)) + 4 < 2 ^ 32"
  shows "\<exists>w'. write_midi_file filename events division w = (sort_key fst events, Inr w')"
proof -
  define tl where "tl = sort_key fst events"
  have h: "\<exists>header. header_chunk division = Inr header"
    using assms(1,2) by (simp add: header_chunk_def pack_I_def pack_HHH_def pack_H_def)
  have tps: "\<bar>ticks_per_second division\<bar> \<le> 2 ^ 17"
    using assms(1,2) by (simp add: ticks_per_second_def)
  have ev: "\<forall>e\<in>set tl. \<bar>fst e\<bar> \<le> 2 ^ 999 \<and> list_all (\<lambda>b. 0 \<le> b \<and> b < 256) (snd e)"
    using assms(3) by (simp add: tl_def)
  have "\<bar>0::rat\<bar> \<le> 2 ^ 999" by simp
  from event_loop_returns [OF ev this tps, of "[]"] obtain track last' where
    l: "event_loop (ticks_per_second division) tl ([], 0) = Inr (track, last')"
    and n: "length track \<le> (\<Sum>e\<leftarrow>tl. 146 + length (snd e))"
    by auto
  have "(\<Sum>e\<leftarrow>tl. 146 + length (snd e)) = (\<Sum>e\<leftarrow>events. 146 + length (snd e))"
    unfolding tl_def by (rule sum_list_sort_key)
  with n assms(4) have "length track + 4 < 2 ^ 32" by linarith
  then have "int (length (track @ [0x00, 0xFF, 0x2F, 0x00])) < 2 ^ 32"
    by (simp flip: of_nat_less_numeral_power_cancel_iff)
  then have c: "\<exists>chunk. track_chunk (track @ [0x00, 0xFF, 0x2F, 0x00]) = Inr chunk"
    by (simp only: track_chunk_def pack_I_def) simp
  from h c l show ?thesis
    unfolding write_midi_file_def Let_def tl_def [symmetric] by auto
qed

text \<open>
  C1. Whenever \<open>write_midi_file\<close> writes the file, the four bytes after the label
  \<open>MTrk\<close> (at offset 18; the header chunk takes 14 bytes and the label 4) are the
  big-endian length of everything that follows them. What follows is the track body:
  for each event of the sorted list its delta as a variable-length quantity and its
  data bytes, then the four bytes of the end-of-track event; its length is the sum of
  the lengths of these parts. And the file is written whenever the division fits 16
  bits, the timestamps are at most \<open>2\<^sup>9\<^sup>9\<^sup>9\<close> in magnitude, the data are bytes and the
  track stays below \<open>2\<^sup>3\<^sup>2\<close> bytes.
\<close>

theorem track_length_field:
  "(\<forall>events' w'. write_midi_file filename events division w = (events', Inr w') \<longrightarrow>
     (\<exists>out ks. files w' filename = Some out
     \<and> take 4 (drop 14 out) = bytes_literal ''MTrk''
     \<and> be_uint (take 4 (drop 18 out)) = length (drop 22 out)
     \<and> delta_ticks (ticks_per_second division) 0 events' = map Inr ks
     \<and> drop 22 out = concat (map2 (\<lambda>k (t, d). event_bytes k d) ks events') @ [0x00, 0xFF, 0x2F, 0x00]
     \<and> length (drop 22 out)
         = (\<Sum>(k, t, d) \<leftarrow> zip ks events'. length (encode_var_len k) + length d) + 4))
   \<and> (0 \<le> division \<and> division < 2 ^ 16
      \<and> (\<forall>e\<in>set events. \<bar>fst e\<bar> \<le> 2 ^ 999 \<and> list_all (\<lambda>b. 0 \<le> b \<and> b < 256) (snd e))
      \<and> (\<Sum>e\<leftarrow>events. 146 + length (snd e)) + 4 < 2 ^ 32
      \<longrightarrow> (\<exists>w'. write_midi_file filename events division w = (sort_key fst events, Inr w')))"
proof (intro conjI allI impI)
  fix events' w'
  assume "write_midi_file filename events division w = (events', Inr w')"
  then show "\<exists>out ks. files w' filename = Some out
     \<and> take 4 (drop 14 out) = bytes_literal ''MTrk''
     \<and> be_uint (take 4 (drop 18 out)) = length (drop 22 out)
     \<and> delta_ticks (ticks_per_second division) 0 events' = map Inr ks
     \<and> drop 22 out = concat (map2 (\<lambda>k (t, d). event_bytes k d) ks events') @ [0x00, 0xFF, 0x2F, 0x00]
     \<and> length (drop 22 out)
         = (\<Sum>(k, t, d) \<leftarrow> zip ks events'. length (encode_var_len k) + length d) + 4"
    by (rule track_length_field_of_run)
next
  assume "0 \<le> division \<and> division < 2 ^ 16
      \<and> (\<forall>e\<in>set events. \<bar>fst e\<bar> \<le> 2 ^ 999 \<and> list_all (\<lambda>b. 0 \<le> b \<and> b < 256) (snd e))
      \<and> (\<Sum>e\<leftarrow>events. 146 + length (snd e)) + 4 < 2 ^ 32"
  then show "\<exists>w'. write_midi_file filename events division w = (sort_key fst events, Inr w')"
    by (intro write_midi_file_returns) simp_all
qed

theorem track_length_field_witness:
  "write_midi_file ''output.mid'' [(1 / 2, [0x90, 0x40, 0x7F])] 96 \<lparr>files = Map.empty, stdout = []\<rparr>
     = ([(1 / 2, [0x90, 0x40, 0x7F])],
        Inr \<lparr>files = [''output.mid'' \<mapsto>
               [0x4D, 0x54, 0x68, 0x64, 0, 0, 0, 6, 0, 0, 0, 1, 0, 0x60,
                0x4D, 0x54, 0x72, 0x6B, 0, 0, 0, 8,
                0x60, 0x90, 0x40, 0x7F, 0x00, 0xFF, 0x2F, 0x00]],
              stdout = [''MIDI file written to output.mid'']\<rparr>)
   \<and> be_uint [0, 0, 0, 8] = length [0x60, 0x90, 0x40, 0x7F, 0x00, 0xFF, 0x2F, 0x00 :: byte]"
proof -
  have run: "write_midi_file ''output.mid'' [(1 / 2, [0x90, 0x40, 0x7F])] 96 \<lparr>files = Map.empty, stdout = []\<rparr>
     = ([(1 / 2, [0x90, 0x40, 0x7F])],
        Inr \<lparr>files = [''output.mid'' \<mapsto>
               [0x4D, 0x54, 0x68, 0x64, 0, 0, 0, 6, 0, 0, 0, 1, 0, 0x60,
                0x4D, 0x54, 0x72, 0x6B, 0, 0, 0, 8,
                0x60, 0x90, 0x40, 0x7F, 0x00, 0xFF, 0x2F, 0x00]],
              stdout = [''MIDI file written to output.mid'']\<rparr>)"
    by (simp add: example_run)
  from track_length_field [THEN conjunct1, rule_format, OF run] have
    "be_uint [0, 0, 0, 8] = length [0x60, 0x90, 0x40, 0x7F, 0x00, 0xFF, 0x2F, 0x00 :: byte]"
    by auto
  with run show ?thesis by (rule conjI)
qed

text \<open>
  C7. Whenever \<open>write_midi_file\<close> writes the file, its content is the label \<open>MThd\<close>,
  the length 6 on four bytes, the three 16-bit fields 0, 1 and the division (all
  big-endian), then the track chunk: the label \<open>MTrk\<close>, its length field and a body
  that ends with the zero delta byte and \<open>FF 2F 00\<close>. The file is written under the
  conditions given for C1.
\<close>

theorem file_layout:
  "(\<forall>events' w'. write_midi_file filename events division w = (events', Inr w') \<longrightarrow>
     (\<exists>dv len body. files w' filename =
       Some (bytes_literal ''MThd'' @ [0, 0, 0, 6] @ [0, 0] @ [0, 1] @ dv
             @ bytes_literal ''MTrk'' @ len @ body @ [0x00, 0xFF, 0x2F, 0x00])
     \<and> be_uint [0, 0, 0, 6] = 6 \<and> be_uint [0, 0] = 0 \<and> be_uint [0, 1] = 1
     \<and> length dv = 2 \<and> int (be_uint dv) = division
     \<and> length len = 4 \<and> be_uint len = length (body @ [0x00, 0xFF, 0x2F, 0x00])))
   \<and> (0 \<le> division \<and> division < 2 ^ 16
      \<and> (\<forall>e\<in>set events. \<bar>fst e\<bar> \<le> 2 ^ 999 \<and> list_all (\<lambda>b. 0 \<le> b \<and> b < 256) (snd e))
      \<and> (\<Sum>e\<leftarrow>events. 146 + length (snd e)) + 4 < 2 ^ 32
      \<longrightarrow> (\<exists>w'. write_midi_file filename events division w = (sort_key fst events, Inr w')))"
proof (intro conjI allI impI)
  fix events' w'
  assume "write_midi_file filename events division w = (events', Inr w')"
  then show "\<exists>dv len body. files w' filename =
       Some (bytes_literal ''MThd'' @ [0, 0, 0, 6] @ [0, 0] @ [0, 1] @ dv
             @ bytes_literal ''MTrk'' @ len @ body @ [0x00, 0xFF, 0x2F, 0x00])
     \<and> be_uint [0, 0, 0, 6] = 6 \<and> be_uint [0, 0] = 0 \<and> be_uint [0, 1] = 1
     \<and> length dv = 2 \<and> int (be_uint dv) = division
     \<and> length len = 4 \<and> be_uint len = length (body @ [0x00, 0xFF, 0x2F, 0x00])"
    by (rule file_layout_of_run)
next
  assume "0 \<le> division \<and> division < 2 ^ 16
      \<and> (\<forall>e\<in>set events. \<bar>fst e\<bar> \<le> 2 ^ 999 \<and> list_all (\<lambda>b. 0 \<le> b \<and> b < 256) (snd e))
      \<and> (\<Sum>e\<leftarrow>events. 146 + length (snd e)) + 4 < 2 ^ 32"
  then show "\<exists>w'. write_midi_file filename events division w = (sort_key fst events, Inr w')"
    by (intro write_midi_file_returns) simp_all
qed

theorem file_layout_witness:
  "write_midi_file ''output.mid'' [(1 / 2, [0x90, 0x40, 0x7F])] 96 \<lparr>files = Map.empty, stdout = []\<rparr>
     = ([(1 / 2, [0x90, 0x40, 0x7F])],
        Inr \<lparr>files = [''output.mid'' \<mapsto>
               [0x4D, 0x54, 0x68, 0x64, 0, 0, 0, 6, 0, 0, 0, 1, 0, 0x60,
                0x4D, 0x54, 0x72, 0x6B, 0, 0, 0, 8,
                0x60, 0x90, 0x40, 0x7F, 0x00, 0xFF, 0x2F, 0x00]],
              stdout = [''MIDI file written to output.mid'']\<rparr>)
   \<and> (\<exists>dv len body.
        [0x4D, 0x54, 0x68, 0x64, 0, 0, 0, 6, 0, 0, 0, 1, 0, 0x60,
         0x4D, 0x54, 0x72, 0x6B, 0, 0, 0, 8,
         0x60, 0x90, 0x40, 0x7F, 0x00, 0xFF, 0x2F, 0x00]
        = bytes_literal ''MThd'' @ [0, 0, 0, 6] @ [0, 0] @ [0, 1] @ dv
             @ bytes_literal ''MTrk'' @ len @ body @ [0x00, 0xFF, 0x2F, 0x00]
        \<and> int (be_uint dv) = 96 \<and> be_uint len = length (body @ [0x00, 0xFF, 0x2F, 0x00 :: byte]))"
proof -
  have run: "write_midi_file ''output.mid'' [(1 / 2, [0x90, 0x40, 0x7F])] 96 \<lparr>files = Map.empty, stdout = []\<rparr>
     = ([(1 / 2, [0x90, 0x40, 0x7F])],
        Inr \<lparr>files = [''output.mid'' \<mapsto>
               [0x4D, 0x54, 0x68, 0x64, 0, 0, 0, 6, 0, 0, 0, 1, 0, 0x60,
                0x4D, 0x54, 0x72, 0x6B, 0, 0, 0, 8,
                0x60, 0x90, 0x40, 0x7F, 0x00, 0xFF, 0x2F, 0x00]],
              stdout = [''MIDI file written to output.mid'']\<rparr>)"
    by (simp add: example_run)
  from file_layout [THEN conjunct1, rule_format, OF run] obtain dv len body where
    "[0x4D, 0x54, 0x68, 0x64, 0, 0, 0, 6, 0, 0, 0, 1, 0, 0x60,
         0x4D, 0x54, 0x72, 0x6B, 0, 0, 0, 8,
         0x60, 0x90, 0x40, 0x7F, 0x00, 0xFF, 0x2F, 0x00]
        = bytes_literal ''MThd'' @ [0, 0, 0, 6] @ [0, 0] @ [0, 1] @ dv
             @ bytes_literal ''MTrk'' @ len @ body @ [0x00, 0xFF, 0x2F, 0x00]"
    "int (be_uint dv) = 96" "be_uint len = length (body @ [0x00, 0xFF, 0x2F, 0x00 :: byte])"
    by (elim exE conjE) simp
  then have "\<exists>dv len body.
        [0x4D, 0x54, 0x68, 0x64, 0, 0, 0, 6, 0, 0, 0, 1, 0, 0x60,
         0x4D, 0x54, 0x72, 0x6B, 0, 0, 0, 8,
         0x60, 0x90, 0x40, 0x7F, 0x00, 0xFF, 0x2F, 0x00]
        = bytes_literal ''MThd'' @ [0, 0, 0, 6] @ [0, 0] @ [0, 1] @ dv
             @ bytes_literal ''MTrk'' @ len @ body @ [0x00, 0xFF, 0x2F, 0x00]
        \<and> int (be_uint dv) = 96 \<and> be_uint len = length (body @ [0x00, 0xFF, 0x2F, 0x00 :: byte])"
    by blast
  with run show ?thesis by (rule conjI)
qed

end
